theory Spec2Isabelle
  imports Complex_Main "HOL-Library.Multiset" "HOL-Library.Word"
    "HOL-Library.List_Lexorder" "HOL-Library.Char_ord" "HOL-Library.Log_Nat"
begin

unbundle bit_operations_syntax

section \<open>Front end: the data the pages work on\<close>

text \<open>
  The interface \<^verbatim>\<open>Story\<close> of \<^verbatim>\<open>frontend/src/types/index.ts\<close>. The value
  of a \<^verbatim>\<open>number\<close> (a finite double) is a rational, an optional field (\<^verbatim>\<open>score?: number\<close>) as an
  option, an array as a list. The field \<^verbatim>\<open>id\<close> is named \<open>id_story\<close>, since \<open>id\<close> is
  the identity function of HOL.
\<close>

record Story =
  id_story :: string
  canonical_url :: string
  title :: string
  description :: string
  content :: string
  published_date :: string
  fetched_date :: string
  source_domain :: string
  source_name :: string
  score :: "rat option"
  marketer_relevance :: "string list"
  action_hint :: string
  tags :: "string list"
  relevance_score :: "rat option"
  impact_score :: "rat option"
  adoption_score :: "rat option"
  urgency_score :: "rat option"
  credibility_score :: "rat option"
  similar_stories :: "string list"
  is_canonical :: bool

section \<open>JavaScript numbers\<close>

text \<open>
  A JavaScript number is a binary64 floating-point number, and every arithmetic
  operation returns the exact result rounded to the nearest such number, a tie going
  to the even significand. A finite number is modelled by its value, a rational.
  \<open>exponent q\<close> is the integer \<open>e\<close> with \<open>pow2 e \<le> \<bar>q\<bar> < pow2 (e + 1)\<close>; the numbers
  around \<open>q\<close> are the multiples of \<open>pow2 (e - 52)\<close> (53 significant bits), and of
  \<open>pow2 (- 1074)\<close> in the subnormal range. Results beyond the largest finite number (which become
  \<^verbatim>\<open>Infinity\<close>) are not modelled; the operands in this development stay far
  below it.
\<close>

definition round_ties_even :: "rat \<Rightarrow> int" where
  "round_ties_even q =
     (let f = \<lfloor>q\<rfloor>; d = q - of_int f in
      if d < 1 / 2 then f else if 1 / 2 < d then f + 1 else if even f then f else f + 1)"

definition pow2 :: "int \<Rightarrow> rat" where
  "pow2 e = (if 0 \<le> e then 2 ^ nat e else 1 / 2 ^ nat (- e))"

definition exponent :: "rat \<Rightarrow> int" where
  "exponent q =
     (case quotient_of \<bar>q\<bar> of (a, b) \<Rightarrow>
        let e = bitlen a - bitlen b in if pow2 e \<le> \<bar>q\<bar> then e else e - 1)"

definition fl64 :: "rat \<Rightarrow> rat" where
  "fl64 q =
     (if q = 0 then 0
      else let u = pow2 (max (exponent q - 52) (- 1074))
           in of_int (round_ties_even (q / u)) * u)"

text \<open>The operators \<^verbatim>\<open>+\<close>, \<^verbatim>\<open>/\<close> (by a number other than zero) and \<^verbatim>\<open>*\<close>.\<close>

definition js_add :: "rat \<Rightarrow> rat \<Rightarrow> rat" where
  "js_add a b = fl64 (a + b)"

definition js_div :: "rat \<Rightarrow> rat \<Rightarrow> rat" where
  "js_div a b = fl64 (a / b)"

definition js_mul :: "rat \<Rightarrow> rat \<Rightarrow> rat" where
  "js_mul a b = fl64 (a * b)"

section \<open>Dashboard: the width of the progress bar\<close>

text \<open>
  The Dashboard page computes the width of the refresh progress bar as
  \<^verbatim>\<open>
  const stages = ['start', 'crawled', 'scoring', 'scoring_complete', 'deduplicating', 'saving'];
  const stage = refreshStatus?.progress?.stage;
  const index = stages.indexOf(stage);
  if (index === -1) return 15;
  return Math.min(95, Math.max(15, ((index + 1) / (stages.length + 1)) * 100));
  \<close>
  The stage is a string or \<^verbatim>\<open>undefined\<close> (no status, or no progress yet): a
  \<open>string option\<close>. \<^verbatim>\<open>indexOf\<close> is the index of the first element that is strictly
  equal to its argument, or \<open>-1\<close>; \<^verbatim>\<open>undefined\<close> equals no string. The two sums, the
  quotient and the product are operations on JavaScript numbers, each rounded;
  \<^verbatim>\<open>Math.min\<close> and \<^verbatim>\<open>Math.max\<close> return one of their arguments.
\<close>

definition stages :: "string list" where
  "stages = [''start'', ''crawled'', ''scoring'', ''scoring_complete'',
             ''deduplicating'', ''saving'']"

fun indexOf_from :: "int \<Rightarrow> 'a list \<Rightarrow> 'a \<Rightarrow> int" where
  "indexOf_from k [] x = - 1"
| "indexOf_from k (y # ys) x = (if y = x then k else indexOf_from (k + 1) ys x)"

definition indexOf :: "string list \<Rightarrow> string option \<Rightarrow> int" where
  "indexOf xs v = (case v of None \<Rightarrow> - 1 | Some x \<Rightarrow> indexOf_from 0 xs x)"

definition progress_width :: "string option \<Rightarrow> rat" where
  "progress_width stage =
     (let index = indexOf stages stage in
      if index = - 1 then 15
      else min 95 (max 15
        (js_mul (js_div (js_add (of_int index) 1) (js_add (of_int (int (length stages))) 1)) 100)))"

section \<open>Stories page: the selection\<close>

text \<open>
  \<^verbatim>\<open>
  const handleSelectStory = (storyId: string) => {
    setSelectedStories(prev =>
      prev.includes(storyId) ? prev.filter(id => id !== storyId) : [...prev, storyId]);
  };
  \<close>
  The model is the function handed to \<^verbatim>\<open>setSelectedStories\<close>: from the previous
  selection to the next one.
\<close>

definition handleSelectStory :: "string \<Rightarrow> string list \<Rightarrow> string list" where
  "handleSelectStory storyId prev =
     (if storyId \<in> set prev then filter (\<lambda>i. i \<noteq> storyId) prev
      else prev @ [storyId])"

text \<open>
  \<^verbatim>\<open>
  const handleSelectAll = () => {
    if (selectedStories.length === storiesData?.stories.length) {
      setSelectedStories([]);
    } else {
      setSelectedStories(storiesData?.stories.map(s => s.id) || []);
    }
  };
  \<close>
  \<^verbatim>\<open>storiesData\<close> is \<^verbatim>\<open>undefined\<close> until the query has answered: an option. Then
  \<^verbatim>\<open>storiesData?.stories.length\<close> is \<^verbatim>\<open>undefined\<close>, which is strictly equal to no
  length, and \<^verbatim>\<open>undefined || []\<close> is the empty array. An array, also an empty one, is
  truthy, so \<^verbatim>\<open>xs || []\<close> is \<^verbatim>\<open>xs\<close>. The model returns the new selection.
\<close>

definition handleSelectAll :: "string list \<Rightarrow> Story list option \<Rightarrow> string list" where
  "handleSelectAll selectedStories storiesData =
     (if Some (length selectedStories) = map_option length storiesData then []
      else (case storiesData of None \<Rightarrow> [] | Some stories \<Rightarrow> map id_story stories))"

text \<open>
  The stories the page displays: it renders \<^verbatim>\<open>storiesData.stories\<close>, and nothing
  while \<^verbatim>\<open>storiesData\<close> is undefined.
\<close>

definition displayed :: "Story list option \<Rightarrow> Story list" where
  "displayed storiesData = (case storiesData of None \<Rightarrow> [] | Some stories \<Rightarrow> stories)"

text \<open>A story with the given id and nothing else, for concrete selections.\<close>

definition mk_story :: "string \<Rightarrow> Story" where
  "mk_story i = \<lparr>id_story = i, canonical_url = [], title = [], description = [], content = [],
     published_date = [], fetched_date = [], source_domain = [], source_name = [],
     score = None, marketer_relevance = [], action_hint = [], tags = [],
     relevance_score = None, impact_score = None, adoption_score = None,
     urgency_score = None, credibility_score = None, similar_stories = [],
     is_canonical = True\<rparr>"

section \<open>Back end: the rubric of the Scoring Gateway\<close>

text \<open>
  The repository's sources hold the front end only; the pipeline (Scoring Gateway,
  Fingerprint Engine, Duplicate Clustering) is described by the specification. What
  follows is written from the specification's sentences, which are quoted.
\<close>

text \<open>
  Modelled from the spec: the weighted sum of the Scoring Gateway's rubric, whose code
  is not among the sources. ``weights: relevance 0.35, impact 0.25, adoption 0.15,
  urgency 0.15, credibility 0.10''. The sub-scores are rationals and the arithmetic is
  exact.
\<close>

definition weighted_sum :: "rat \<Rightarrow> rat \<Rightarrow> rat \<Rightarrow> rat \<Rightarrow> rat \<Rightarrow> rat" where
  "weighted_sum r i a u c =
     35 / 100 * r + 25 / 100 * i + 15 / 100 * a + 15 / 100 * u + 10 / 100 * c"

text \<open>
  Modelled from the spec: the composite score of the Scoring Gateway, whose code is not
  among the sources. ``composite = round(weighted sum of the five 0--100 sub-scores)''.
  \<open>round\<close> is the nearest integer, a half going up; the specification does not say
  which way a half goes.
\<close>

definition composite :: "rat \<Rightarrow> rat \<Rightarrow> rat \<Rightarrow> rat \<Rightarrow> rat \<Rightarrow> int" where
  "composite r i a u c = round (weighted_sum r i a u c)"

section \<open>Back end: fingerprints and duplicate clustering\<close>

text \<open>
  Modelled from the spec: the story record of the pipeline (section 3 of the
  specification), whose code is not among the sources. Only the fields that Duplicate
  Clustering reads or writes are kept: the id, the title and the description (the
  fingerprinted text), the publication date as a number of days, the composite score
  (``absent until scored''), and the two fields the clustering rewrites.
\<close>

record story_record =
  rec_id :: string
  rec_title :: string
  rec_description :: string
  rec_published_date :: int
  rec_score :: "int option"
  rec_is_canonical :: bool
  rec_similar_stories :: "string list"

type_synonym fingerprint = "64 word"

text \<open>
  Modelled from the spec: the distance of the Fingerprint Engine, whose code is not
  among the sources. ``\<open>distance(a, b)\<close>: population count of the XOR of two
  fingerprints'', on a ``fixed-width (64-bit) fingerprint''. The hash that produces a
  fingerprint from a text is not specified: it is the parameter \<open>fp\<close> below.
\<close>

definition distance :: "fingerprint \<Rightarrow> fingerprint \<Rightarrow> nat" where
  "distance a b = length (filter (bit (a XOR b)) [0..<64])"

text \<open>
  Modelled from the spec: the edge test of the candidate-pair graph of Duplicate
  Clustering, whose code is not among the sources. ``computing the Fingerprint
  Engine's fingerprint of each story's title + description, and connecting two stories
  whenever distance \<open>\<le>\<close> T and their published\_date values fall within a bounded
  window of each other''. The threshold \<open>T\<close> and the window \<open>W\<close> are parameters.
\<close>

definition near ::
  "(string \<Rightarrow> fingerprint) \<Rightarrow> nat \<Rightarrow> int \<Rightarrow> story_record \<Rightarrow> story_record \<Rightarrow> bool" where
  "near fp T W a b \<longleftrightarrow>
     distance (fp (rec_title a @ rec_description a)) (fp (rec_title b @ rec_description b)) \<le> T
     \<and> \<bar>rec_published_date a - rec_published_date b\<bar> \<le> W"

text \<open>
  Modelled from the spec: the candidate-pair graph of Duplicate Clustering, whose code
  is not among the sources, as the list of its edges between positions of the batch
  (each unordered pair once, the smaller position first).
\<close>

definition candidate_pairs ::
  "(string \<Rightarrow> fingerprint) \<Rightarrow> nat \<Rightarrow> int \<Rightarrow> story_record list \<Rightarrow> (nat \<times> nat) list" where
  "candidate_pairs fp T W ss =
     [(i, j). i \<leftarrow> [0..<length ss], j \<leftarrow> [Suc i..<length ss], near fp T W (ss ! i) (ss ! j)]"

text \<open>
  Modelled from the spec: the union step of the union-find of Duplicate Clustering,
  whose code is not among the sources. The structure is the array of component labels
  (the label of a position is read off directly); uniting \<open>i\<close> and \<open>j\<close> gives the label
  of \<open>j\<close> to every position that carries the label of \<open>i\<close>.
\<close>

definition uf_union :: "nat list \<Rightarrow> nat \<times> nat \<Rightarrow> nat list" where
  "uf_union l e = (case e of (i, j) \<Rightarrow> map (\<lambda>x. if x = l ! i then l ! j else x) l)"

text \<open>
  Modelled from the spec: ``compute connected components (union-find) over this
  graph'', the code of which is not among the sources. Every position starts with a
  label of its own, and the edges are united one after the other.
\<close>

definition components ::
  "(string \<Rightarrow> fingerprint) \<Rightarrow> nat \<Rightarrow> int \<Rightarrow> story_record list \<Rightarrow> nat list" where
  "components fp T W ss = foldl uf_union [0..<length ss] (candidate_pairs fp T W ss)"

text \<open>Two positions are in one cluster when they carry the same label.\<close>

definition same_cluster :: "nat list \<Rightarrow> nat \<Rightarrow> nat \<Rightarrow> bool" where
  "same_cluster l i j \<longleftrightarrow> l ! i = l ! j"

text \<open>The cluster of position \<open>i\<close>: the positions with its label, in batch order.\<close>

definition members :: "nat list \<Rightarrow> nat \<Rightarrow> nat list" where
  "members l i = filter (\<lambda>k. l ! k = l ! i) [0..<length l]"

text \<open>
  Modelled from the spec: the ranking of scores in the canonical selection of Duplicate
  Clustering, whose code is not among the sources. ``prefer the member with the highest
  composite score''; a story with no score ``can never become canonical if any
  clustered peer is scored'': a score ranks above no score.
\<close>

definition higher :: "int option \<Rightarrow> int option \<Rightarrow> bool" where
  "higher x y = (case x of None \<Rightarrow> False
                 | Some u \<Rightarrow> (case y of None \<Rightarrow> True | Some v \<Rightarrow> v < u))"

text \<open>
  Modelled from the spec: the preference of the canonical selection, whose code is not
  among the sources. ``prefer the member with the highest composite score; tie-break by
  earliest published\_date; tie-break by lexicographically smallest id''.
\<close>

definition outranks :: "story_record \<Rightarrow> story_record \<Rightarrow> bool" where
  "outranks a b =
     (if higher (rec_score a) (rec_score b) then True
      else if higher (rec_score b) (rec_score a) then False
      else if rec_published_date a < rec_published_date b then True
      else if rec_published_date b < rec_published_date a then False
      else rec_id a < rec_id b)"

text \<open>
  Modelled from the spec: the canonical selection over the members of one cluster,
  whose code is not among the sources: a scan that keeps the best position so far.
\<close>

fun pick_canonical :: "story_record list \<Rightarrow> nat \<Rightarrow> nat list \<Rightarrow> nat" where
  "pick_canonical ss best [] = best"
| "pick_canonical ss best (k # ks) =
     pick_canonical ss (if outranks (ss ! k) (ss ! best) then k else best) ks"

text \<open>
  Modelled from the spec: the canonical member of the cluster of position \<open>i\<close>. The
  cluster of a position of the batch holds that position, so the first case is for a
  position outside the batch only.
\<close>

definition canonical_of :: "story_record list \<Rightarrow> nat list \<Rightarrow> nat \<Rightarrow> nat" where
  "canonical_of ss l i = (case members l i of [] \<Rightarrow> i | k # ks \<Rightarrow> pick_canonical ss k ks)"

text \<open>
  Modelled from the spec: the rewriting of one record by Duplicate Clustering, whose
  code is not among the sources. ``All non-canonical members receive is\_canonical =
  false and similar\_stories pointing at the rest of the cluster; the canonical
  member's similar\_stories lists all other members.''
\<close>

definition link :: "story_record list \<Rightarrow> nat list \<Rightarrow> nat \<Rightarrow> story_record" where
  "link ss l i = (ss ! i)
     \<lparr>rec_is_canonical := (canonical_of ss l i = i),
      rec_similar_stories := map (\<lambda>k. rec_id (ss ! k)) (filter (\<lambda>k. k \<noteq> i) (members l i))\<rparr>"

text \<open>
  Modelled from the spec: Duplicate Clustering as a whole, whose code is not among the
  sources: from the batch of stories to the batch with the two fields rewritten, in
  the same order.
\<close>

definition cluster_stories ::
  "(string \<Rightarrow> fingerprint) \<Rightarrow> nat \<Rightarrow> int \<Rightarrow> story_record list \<Rightarrow> story_record list" where
  "cluster_stories fp T W ss =
     (let l = components fp T W ss in map (link ss l) [0..<length ss])"

text \<open>
  The candidate-pair graph as a relation on the positions of the batch, to state what
  the components are.
\<close>

definition linked ::
  "(string \<Rightarrow> fingerprint) \<Rightarrow> nat \<Rightarrow> int \<Rightarrow> story_record list \<Rightarrow> (nat \<times> nat) set" where
  "linked fp T W ss =
     {(i, j). i < length ss \<and> j < length ss \<and> near fp T W (ss ! i) (ss ! j)}"

text \<open>
  A concrete batch: a fingerprint function with \<open>n\<close> low bits set for a text of
  length \<open>n\<close>, and four stories. The texts of \<open>a\<close> and \<open>b\<close> are at distance 3, those
  of \<open>b\<close> and \<open>c\<close> at distance 3, those of \<open>a\<close> and \<open>c\<close> at distance 6.
\<close>

definition fp_len :: "string \<Rightarrow> fingerprint" where
  "fp_len t = 2 ^ length t - 1"

definition mk_record :: "string \<Rightarrow> string \<Rightarrow> int \<Rightarrow> int option \<Rightarrow> story_record" where
  "mk_record i t d s = \<lparr>rec_id = i, rec_title = t, rec_description = [],
     rec_published_date = d, rec_score = s, rec_is_canonical = True,
     rec_similar_stories = []\<rparr>"

definition batch :: "story_record list" where
  "batch = [mk_record ''a'' [] 10 (Some 80), mk_record ''b'' ''xyz'' 10 (Some 90),
            mk_record ''c'' ''uvwxyz'' 11 None, mk_record ''d'' ''0123456789'' 10 (Some 99)]"

section \<open>Properties of the progress bar\<close>

text \<open>
  The rounding on known values: \<^verbatim>\<open>0.1\<close>, \<^verbatim>\<open>0.1 + 0.2\<close> (which is not \<^verbatim>\<open>0.3\<close>), a
  tie above \<open>2 ^ 53\<close>, and small integers, which are exact.
\<close>

lemma fl64_examples:
  "fl64 (1 / 10) = 3602879701896397 / 2 ^ 55"
  "js_add (fl64 (1 / 10)) (fl64 (2 / 10)) = 1351079888211149 / 2 ^ 52"
  "fl64 (3 / 10) = 5404319552844595 / 2 ^ 54"
  "fl64 (2 ^ 53 + 1) = 2 ^ 53"
  "fl64 (2 ^ 53 + 3) = 2 ^ 53 + 4"
  "js_add 6 1 = 7"
  by code_simp+

lemma indexOf_from_absent: "x \<notin> set xs \<Longrightarrow> indexOf_from k xs x = - 1"
  by (induction xs arbitrary: k) auto

lemma progress_width_bounds: "15 \<le> progress_width stage \<and> progress_width stage \<le> 95"
proof -
  have "(15::rat) \<le> min 95 (max 15 q)" and "min 95 (max 15 q) \<le> (95::rat)" for q
    by simp_all
  then show ?thesis
    by (simp add: progress_width_def Let_def)
qed

text \<open>
  The width at each of the six stages, and the value of the formula at the indices 0
  to 5, each computed with the rounded operations.
\<close>

lemma progress_width_stage:
  "progress_width (Some ''start'') = 15"
  "progress_width (Some ''crawled'') = 2010535547933257 / 2 ^ 46"
  "progress_width (Some ''scoring'') = 6031606643799771 / 2 ^ 47"
  "progress_width (Some ''scoring_complete'') = 2010535547933257 / 2 ^ 45"
  "progress_width (Some ''deduplicating'') = 5026338869833143 / 2 ^ 46"
  "progress_width (Some ''saving'') = 6031606643799771 / 2 ^ 46"
  by code_simp+

lemma js_formula:
  "min 95 (max 15 (js_mul (js_div 1 7) 100)) = 15"
  "min 95 (max 15 (js_mul (js_div 2 7) 100)) = 2010535547933257 / 2 ^ 46"
  "min 95 (max 15 (js_mul (js_div 3 7) 100)) = 6031606643799771 / 2 ^ 47"
  "min 95 (max 15 (js_mul (js_div 4 7) 100)) = 2010535547933257 / 2 ^ 45"
  "min 95 (max 15 (js_mul (js_div 5 7) 100)) = 5026338869833143 / 2 ^ 46"
  "min 95 (max 15 (js_mul (js_div 6 7) 100)) = 6031606643799771 / 2 ^ 46"
  by code_simp+

lemma stages_cases:
  assumes "i < length stages"
  shows "i \<in> {0, 1, 2, 3, 4, 5}"
  using assms by (auto simp: stages_def)

text \<open>
  Claim C8. For every stage (a string, or none), the width of the progress bar lies
  in the closed interval from 15 to 95; a stage that is not in the list of stages gives
  exactly 15, and the stage at index \<open>i\<close> of the list gives
  \<open>min 95 (max 15 (((i + 1) / 7) * 100))\<close>, the quotient and the product being those
  of JavaScript numbers. That value is within \<open>1 / 10 ^ 14\<close> of the value of the
  formula in exact arithmetic.
\<close>

theorem progress_width_spec:
  "15 \<le> progress_width stage \<and> progress_width stage \<le> 95
   \<and> (stage \<notin> Some ` set stages \<longrightarrow> progress_width stage = 15)
   \<and> (\<forall>i < length stages.
         progress_width (Some (stages ! i))
           = min 95 (max 15 (js_mul (js_div (of_nat (i + 1)) 7) 100)))
   \<and> (\<forall>i < length stages.
         \<bar>progress_width (Some (stages ! i))
            - min 95 (max 15 ((of_nat (i + 1) / 7) * 100))\<bar> \<le> 1 / 10 ^ 14)"
proof (intro conjI impI allI)
  show "15 \<le> progress_width stage" using progress_width_bounds by blast
  show "progress_width stage \<le> 95" using progress_width_bounds by blast
next
  assume "stage \<notin> Some ` set stages"
  then have "indexOf stages stage = - 1"
    by (cases stage) (auto simp: indexOf_def intro: indexOf_from_absent)
  then show "progress_width stage = 15"
    by (simp add: progress_width_def)
next
  fix i assume "i < length stages"
  then have "i \<in> {0, 1, 2, 3, 4, 5}" by (rule stages_cases)
  then show "progress_width (Some (stages ! i))
      = min 95 (max 15 (js_mul (js_div (of_nat (i + 1)) 7) 100))"
    by (auto simp: stages_def progress_width_stage js_formula)
next
  fix i assume "i < length stages"
  then have "i \<in> {0, 1, 2, 3, 4, 5}" by (rule stages_cases)
  then show "\<bar>progress_width (Some (stages ! i))
      - min 95 (max 15 ((of_nat (i + 1) / 7) * 100))\<bar> \<le> 1 / 10 ^ 14"
    by (auto simp: stages_def progress_width_stage)
qed

text \<open>
  At the stage \<^verbatim>\<open>scoring\<close> the width is \<open>6031606643799771 / 2 ^ 47\<close>, which is not
  the rational \<open>300 / 7\<close>.
\<close>

theorem progress_width_spec_witness:
  "progress_width (Some ''start'') = 15
   \<and> progress_width (Some ''scoring'') = 6031606643799771 / 2 ^ 47
   \<and> progress_width (Some ''saving'') = 6031606643799771 / 2 ^ 46
   \<and> progress_width (Some ''scoring'') \<noteq> 300 / 7
   \<and> progress_width (Some ''starting'') = 15
   \<and> progress_width None = 15"
proof -
  have a: "Some ''starting'' \<notin> Some ` set stages" by (simp add: stages_def)
  have b: "None \<notin> Some ` set stages" by simp
  have n: "(2::nat) < length stages" "(0::nat) < length stages" "(5::nat) < length stages"
    by (simp_all add: stages_def)
  have s: "stages ! 2 = ''scoring''" "stages ! 0 = ''start''" "stages ! 5 = ''saving''"
    by (simp_all add: stages_def)
  from progress_width_spec [of "Some ''starting''"] a
  have 1: "progress_width (Some ''starting'') = 15" by blast
  from progress_width_spec [of None] b
  have 2: "progress_width None = 15" by blast
  from progress_width_spec [of None] n
  have "progress_width (Some (stages ! 2)) = min 95 (max 15 (js_mul (js_div (of_nat (2 + 1)) 7) 100))"
    "progress_width (Some (stages ! 0)) = min 95 (max 15 (js_mul (js_div (of_nat (0 + 1)) 7) 100))"
    "progress_width (Some (stages ! 5)) = min 95 (max 15 (js_mul (js_div (of_nat (5 + 1)) 7) 100))"
    by blast+
  then have 3: "progress_width (Some ''scoring'') = 6031606643799771 / 2 ^ 47"
    "progress_width (Some ''start'') = 15"
    "progress_width (Some ''saving'') = 6031606643799771 / 2 ^ 46"
    by (simp_all add: s js_formula)
  from 3(1) have 4: "progress_width (Some ''scoring'') \<noteq> 300 / 7" by simp
  from 1 2 3 4 show ?thesis by blast
qed

section \<open>Properties of the selection\<close>

lemma filter_neq_absent: "x \<notin> set xs \<Longrightarrow> filter (\<lambda>i. i \<noteq> x) xs = xs"
  by (induction xs) auto

lemma filter_neq_last:
  "distinct xs \<Longrightarrow> xs \<noteq> [] \<Longrightarrow> filter (\<lambda>i. i \<noteq> last xs) xs @ [last xs] = xs"
proof (induction xs rule: rev_induct)
  case Nil
  then show ?case by simp
next
  case (snoc y ys)
  then show ?case by (simp add: filter_neq_absent)
qed

text \<open>
  Claim C9, as stated: on a selection without duplicates, toggling the same id twice
  gives the original list back. It fails when the id is selected and is not the last
  element: the first toggle removes it, the second appends it at the end.
\<close>

theorem handleSelectStory_twice_counterexample:
  "distinct [''a'', ''b'']
   \<and> handleSelectStory ''a'' (handleSelectStory ''a'' [''a'', ''b'']) = [''b'', ''a'']
   \<and> handleSelectStory ''a'' (handleSelectStory ''a'' [''a'', ''b'']) \<noteq> [''a'', ''b'']"
  by (simp add: handleSelectStory_def)

text \<open>
  Claim C9, amended. On a selection without duplicates, one toggle removes the id if
  it is present and appends it at the end if it is absent; two toggles with the same
  id give the original list with the id moved to the end if it was present, and the
  original list if it was absent. So the result is a duplicate-free permutation of
  the original selection (the same set of ids), and it is the original list itself
  when the id was absent or was its last element.
\<close>

theorem handleSelectStory_twice:
  assumes "distinct prev"
  shows "handleSelectStory storyId prev =
           (if storyId \<in> set prev then filter (\<lambda>i. i \<noteq> storyId) prev else prev @ [storyId])
    \<and> handleSelectStory storyId (handleSelectStory storyId prev) =
           (if storyId \<in> set prev then filter (\<lambda>i. i \<noteq> storyId) prev @ [storyId] else prev)
    \<and> mset (handleSelectStory storyId (handleSelectStory storyId prev)) = mset prev
    \<and> distinct (handleSelectStory storyId (handleSelectStory storyId prev))
    \<and> (storyId \<notin> set prev \<or> (prev \<noteq> [] \<and> last prev = storyId) \<longrightarrow>
           handleSelectStory storyId (handleSelectStory storyId prev) = prev)"
proof -
  have one: "handleSelectStory storyId prev =
           (if storyId \<in> set prev then filter (\<lambda>i. i \<noteq> storyId) prev else prev @ [storyId])"
    by (simp add: handleSelectStory_def)
  have two: "handleSelectStory storyId (handleSelectStory storyId prev) =
           (if storyId \<in> set prev then filter (\<lambda>i. i \<noteq> storyId) prev @ [storyId] else prev)"
    by (simp add: handleSelectStory_def filter_neq_absent)
  have dist: "distinct (handleSelectStory storyId (handleSelectStory storyId prev))"
    using assms by (simp add: two)
  have perm: "mset (handleSelectStory storyId (handleSelectStory storyId prev)) = mset prev"
  proof -
    have "set (handleSelectStory storyId (handleSelectStory storyId prev)) = set prev"
      by (auto simp: two)
    with dist assms show ?thesis
      by (simp add: set_eq_iff_mset_eq_distinct)
  qed
  have same: "handleSelectStory storyId (handleSelectStory storyId prev) = prev"
    if "storyId \<notin> set prev \<or> (prev \<noteq> [] \<and> last prev = storyId)"
    using that assms filter_neq_last [of prev] by (auto simp: two)
  from one two perm dist same show ?thesis by blast
qed

theorem handleSelectStory_twice_witness:
  "distinct [''a'', ''b'', ''c'']
   \<and> handleSelectStory ''a'' [''a'', ''b'', ''c''] = [''b'', ''c'']
   \<and> handleSelectStory ''a'' (handleSelectStory ''a'' [''a'', ''b'', ''c'']) = [''b'', ''c'', ''a'']
   \<and> handleSelectStory ''c'' (handleSelectStory ''c'' [''a'', ''b'', ''c'']) = [''a'', ''b'', ''c'']
   \<and> handleSelectStory ''d'' (handleSelectStory ''d'' [''a'', ''b'', ''c'']) = [''a'', ''b'', ''c'']"
proof -
  have d: "distinct [''a'', ''b'', ''c'']" by simp
  show ?thesis
    using d handleSelectStory_twice [OF d, of "''a''"] handleSelectStory_twice [OF d, of "''c''"]
      handleSelectStory_twice [OF d, of "''d''"]
    by (simp add: handleSelectStory_def)
qed

text \<open>
  Claim C10. After \<^verbatim>\<open>handleSelectAll\<close> the selection is the empty list when the
  length of the previous selection is the number of displayed stories, and otherwise
  the list of the ids of all displayed stories, in the order of display.
\<close>

theorem handleSelectAll_spec:
  "handleSelectAll selectedStories storiesData =
     (if length selectedStories = length (displayed storiesData) then []
      else map id_story (displayed storiesData))"
  by (cases storiesData) (auto simp: handleSelectAll_def displayed_def)

theorem handleSelectAll_spec_witness:
  "handleSelectAll [''x''] (Some [mk_story ''a'', mk_story ''b'']) = [''a'', ''b'']
   \<and> handleSelectAll [''b'', ''a''] (Some [mk_story ''a'', mk_story ''b'']) = []
   \<and> handleSelectAll [''a''] None = []
   \<and> handleSelectAll [] None = []"
  using handleSelectAll_spec [of "[''x'']" "Some [mk_story ''a'', mk_story ''b'']"]
    handleSelectAll_spec [of "[''b'', ''a'']" "Some [mk_story ''a'', mk_story ''b'']"]
    handleSelectAll_spec [of "[''a'']" None]
    handleSelectAll_spec [of "[]" None]
  by (simp add: displayed_def mk_story_def)

section \<open>Properties of the composite score\<close>

lemma weighted_sum_bounds:
  assumes "0 \<le> r" "r \<le> 100" "0 \<le> i" "i \<le> 100" "0 \<le> a" "a \<le> 100"
    "0 \<le> u" "u \<le> 100" "0 \<le> c" "c \<le> 100"
  shows "0 \<le> weighted_sum r i a u c" "weighted_sum r i a u c \<le> 100"
  using assms unfolding weighted_sum_def by linarith+

text \<open>
  Claim C6. For five sub-scores, each between 0 and 100, the composite score is
  \<open>round (0.35 r + 0.25 i + 0.15 a + 0.15 u + 0.10 c)\<close>, and it is an integer between
  0 and 100. It is moreover within one half of the weighted sum, which is what any
  rounding to a nearest integer gives.
\<close>

theorem composite_range:
  assumes "0 \<le> r" "r \<le> 100" "0 \<le> i" "i \<le> 100" "0 \<le> a" "a \<le> 100"
    "0 \<le> u" "u \<le> 100" "0 \<le> c" "c \<le> 100"
  shows "composite r i a u c
           = round (35 / 100 * r + 25 / 100 * i + 15 / 100 * a + 15 / 100 * u + 10 / 100 * c)
    \<and> 0 \<le> composite r i a u c \<and> composite r i a u c \<le> 100
    \<and> \<bar>of_int (composite r i a u c) - weighted_sum r i a u c\<bar> \<le> 1 / 2"
proof -
  have "round (0::rat) \<le> round (weighted_sum r i a u c)"
    using weighted_sum_bounds(1) [OF assms] by (rule round_mono)
  moreover have "round (weighted_sum r i a u c) \<le> round (100::rat)"
    using weighted_sum_bounds(2) [OF assms] by (rule round_mono)
  moreover have "\<bar>of_int (round (weighted_sum r i a u c)) - weighted_sum r i a u c\<bar> \<le> 1 / 2"
    by (rule of_int_round_abs_le)
  ultimately show ?thesis
    by (simp add: composite_def weighted_sum_def)
qed

theorem composite_range_witness:
  "(0::rat) \<le> 80 \<and> (41::rat) \<le> 100
   \<and> composite 80 70 60 50 41 = 66
   \<and> composite 100 100 100 100 100 = 100
   \<and> composite 0 0 0 0 0 = 0"
proof -
  have r: "round (661 / 10 :: rat) = 66" by code_simp
  show ?thesis
    using composite_range [of 80 70 60 50 41] composite_range [of 100 100 100 100 100]
      composite_range [of 0 0 0 0 0]
    by (simp add: weighted_sum_def r)
qed

section \<open>Properties of the connected components\<close>

lemma length_uf_union: "length (uf_union l e) = length l"
  by (cases e) (simp add: uf_union_def)

lemma length_foldl_union: "length (foldl uf_union l es) = length l"
  by (induction es arbitrary: l) (simp_all add: length_uf_union)

lemma length_components: "length (components fp T W ss) = length ss"
  by (simp add: components_def length_foldl_union)

lemma uf_union_keeps:
  "a < length l \<Longrightarrow> b < length l \<Longrightarrow> l ! a = l ! b \<Longrightarrow> uf_union l e ! a = uf_union l e ! b"
  by (cases e) (simp add: uf_union_def)

lemma uf_union_joins:
  "i < length l \<Longrightarrow> j < length l \<Longrightarrow> uf_union l (i, j) ! i = uf_union l (i, j) ! j"
  by (simp add: uf_union_def)

lemma foldl_union_keeps:
  "a < length l \<Longrightarrow> b < length l \<Longrightarrow> l ! a = l ! b \<Longrightarrow>
   foldl uf_union l es ! a = foldl uf_union l es ! b"
proof (induction es arbitrary: l)
  case Nil
  then show ?case by simp
next
  case (Cons e es)
  have "uf_union l e ! a = uf_union l e ! b"
    using Cons.prems by (rule uf_union_keeps)
  moreover have "a < length (uf_union l e)" "b < length (uf_union l e)"
    using Cons.prems by (simp_all add: length_uf_union)
  ultimately have "foldl uf_union (uf_union l e) es ! a = foldl uf_union (uf_union l e) es ! b"
    using Cons.IH [of "uf_union l e"] by blast
  then show ?case by simp
qed

lemma foldl_union_joins:
  "(i, j) \<in> set es \<Longrightarrow> i < length l \<Longrightarrow> j < length l \<Longrightarrow>
   foldl uf_union l es ! i = foldl uf_union l es ! j"
proof (induction es arbitrary: l)
  case Nil
  then show ?case by simp
next
  case (Cons e es)
  have len: "i < length (uf_union l e)" "j < length (uf_union l e)"
    using Cons.prems(2,3) by (simp_all add: length_uf_union)
  show ?case
  proof (cases "e = (i, j)")
    case True
    have "uf_union l e ! i = uf_union l e ! j"
      unfolding True using Cons.prems(2,3) by (rule uf_union_joins)
    with len have "foldl uf_union (uf_union l e) es ! i = foldl uf_union (uf_union l e) es ! j"
      by (rule foldl_union_keeps)
    then show ?thesis by simp
  next
    case False
    with Cons.prems have "(i, j) \<in> set es" by simp
    then have "foldl uf_union (uf_union l e) es ! i = foldl uf_union (uf_union l e) es ! j"
      using len by (rule Cons.IH)
    then show ?thesis by simp
  qed
qed

lemma set_candidate_pairs:
  "set (candidate_pairs fp T W ss) =
     {(i, j). i < j \<and> j < length ss \<and> near fp T W (ss ! i) (ss ! j)}"
  by (auto simp: candidate_pairs_def)

lemma distance_sym: "distance a b = distance b a"
  by (simp add: distance_def xor.commute)

lemma near_sym: "near fp T W a b \<longleftrightarrow> near fp T W b a"
proof -
  have "\<bar>rec_published_date a - rec_published_date b\<bar> = \<bar>rec_published_date b - rec_published_date a\<bar>"
    by linarith
  then show ?thesis
    unfolding near_def
    by (simp only: distance_sym [of "fp (rec_title a @ rec_description a)"])
qed

lemma near_joined:
  assumes "i < length ss" "j < length ss" "near fp T W (ss ! i) (ss ! j)"
  shows "components fp T W ss ! i = components fp T W ss ! j"
proof -
  have step: "components fp T W ss ! a = components fp T W ss ! b"
    if "a < b" "b < length ss" "near fp T W (ss ! a) (ss ! b)" for a b
  proof -
    from that have "(a, b) \<in> set (candidate_pairs fp T W ss)"
      by (simp add: set_candidate_pairs)
    then show ?thesis
      unfolding components_def using that by (intro foldl_union_joins) simp_all
  qed
  consider "i < j" | "i = j" | "j < i" by linarith
  then show ?thesis
  proof cases
    case 1
    then show ?thesis using assms step by blast
  next
    case 2
    then show ?thesis by simp
  next
    case 3
    from assms(3) have "near fp T W (ss ! j) (ss ! i)" by (simp add: near_sym)
    with 3 assms(1) show ?thesis using step [of j i] by simp
  qed
qed

lemma sym_linked: "sym (linked fp T W ss)"
  unfolding sym_def linked_def using near_sym by blast

lemma uf_union_sound:
  assumes inv: "\<And>a b. a < length l \<Longrightarrow> b < length l \<Longrightarrow> l ! a = l ! b \<Longrightarrow> (a, b) \<in> R\<^sup>*"
    and R: "sym R" "(i, j) \<in> R" and ij: "i < length l" "j < length l"
    and ab: "a < length l" "b < length l"
    and eq: "uf_union l (i, j) ! a = uf_union l (i, j) ! b"
  shows "(a, b) \<in> R\<^sup>*"
proof -
  have symR: "(y, x) \<in> R\<^sup>*" if "(x, y) \<in> R\<^sup>*" for x y
    using that R(1) by (meson sym_rtrancl symD)
  have edge: "(i, j) \<in> R\<^sup>*" using R(2) by blast
  from eq ab have e: "(if l ! a = l ! i then l ! j else l ! a) = (if l ! b = l ! i then l ! j else l ! b)"
    by (simp add: uf_union_def)
  show ?thesis
  proof (cases "l ! a = l ! i")
    case ai: True
    then have a_i: "(a, i) \<in> R\<^sup>*" using inv ab ij by blast
    show ?thesis
    proof (cases "l ! b = l ! i")
      case True
      with ai have "l ! a = l ! b" by simp
      then show ?thesis using inv ab by blast
    next
      case False
      with e ai have "l ! j = l ! b" by simp
      then have "(j, b) \<in> R\<^sup>*" using inv ab ij by blast
      with a_i edge show ?thesis by (meson rtrancl_trans)
    qed
  next
    case nai: False
    show ?thesis
    proof (cases "l ! b = l ! i")
      case True
      then have "(b, i) \<in> R\<^sup>*" using inv ab ij by blast
      then have i_b: "(i, b) \<in> R\<^sup>*" by (rule symR)
      from e nai True have "l ! a = l ! j" by simp
      then have "(a, j) \<in> R\<^sup>*" using inv ab ij by blast
      moreover have "(j, i) \<in> R\<^sup>*" using edge by (rule symR)
      ultimately show ?thesis using i_b by (meson rtrancl_trans)
    next
      case False
      with e nai have "l ! a = l ! b" by simp
      then show ?thesis using inv ab by blast
    qed
  qed
qed

lemma foldl_union_sound:
  assumes "\<And>a b. a < length l \<Longrightarrow> b < length l \<Longrightarrow> l ! a = l ! b \<Longrightarrow> (a, b) \<in> R\<^sup>*"
    and "sym R"
    and "\<And>i j. (i, j) \<in> set es \<Longrightarrow> (i, j) \<in> R \<and> i < length l \<and> j < length l"
    and "a < length l" "b < length l"
    and "foldl uf_union l es ! a = foldl uf_union l es ! b"
  shows "(a, b) \<in> R\<^sup>*"
  using assms
proof (induction es arbitrary: l a b)
  case Nil
  then show ?case by simp
next
  case (Cons e es)
  obtain i j where e: "e = (i, j)" by (cases e)
  have ij: "(i, j) \<in> R" "i < length l" "j < length l"
    using Cons.prems(3) [of i j] e by simp_all
  have inv': "(x, y) \<in> R\<^sup>*"
    if "x < length (uf_union l e)" "y < length (uf_union l e)"
      "uf_union l e ! x = uf_union l e ! y" for x y
    using that Cons.prems(1) Cons.prems(2) ij unfolding e
    by (intro uf_union_sound [of l R i j x y]) (simp_all add: length_uf_union)
  show ?case
  proof (rule Cons.IH [of "uf_union l e"])
    show "(x, y) \<in> R\<^sup>*"
      if "x < length (uf_union l e)" "y < length (uf_union l e)"
        "uf_union l e ! x = uf_union l e ! y" for x y
      using that by (rule inv')
    show "sym R" by fact
    show "(p, q) \<in> R \<and> p < length (uf_union l e) \<and> q < length (uf_union l e)"
      if "(p, q) \<in> set es" for p q
      using that Cons.prems(3) [of p q] by (simp add: length_uf_union)
    show "a < length (uf_union l e)" "b < length (uf_union l e)"
      using Cons.prems(4,5) by (simp_all add: length_uf_union)
    show "foldl uf_union (uf_union l e) es ! a = foldl uf_union (uf_union l e) es ! b"
      using Cons.prems(6) by simp
  qed
qed

lemma components_sound:
  assumes "a < length ss" "b < length ss"
    and "components fp T W ss ! a = components fp T W ss ! b"
  shows "(a, b) \<in> (linked fp T W ss)\<^sup>*"
proof (rule foldl_union_sound [of "[0..<length ss]" "linked fp T W ss" "candidate_pairs fp T W ss"])
  show "(x, y) \<in> (linked fp T W ss)\<^sup>*"
    if "x < length [0..<length ss]" "y < length [0..<length ss]"
      "[0..<length ss] ! x = [0..<length ss] ! y" for x y
    using that by simp
  show "sym (linked fp T W ss)" by (rule sym_linked)
  show "(i, j) \<in> linked fp T W ss \<and> i < length [0..<length ss] \<and> j < length [0..<length ss]"
    if "(i, j) \<in> set (candidate_pairs fp T W ss)" for i j
    using that by (auto simp: set_candidate_pairs linked_def)
  show "a < length [0..<length ss]" "b < length [0..<length ss]"
    using assms by simp_all
  show "foldl uf_union [0..<length ss] (candidate_pairs fp T W ss) ! a
        = foldl uf_union [0..<length ss] (candidate_pairs fp T W ss) ! b"
    using assms(3) by (simp add: components_def)
qed

lemma components_complete:
  assumes "(a, b) \<in> (linked fp T W ss)\<^sup>*"
  shows "components fp T W ss ! a = components fp T W ss ! b"
  using assms
proof (induction rule: rtrancl_induct)
  case base
  then show ?case by simp
next
  case (step y z)
  from step.hyps(2) have "components fp T W ss ! y = components fp T W ss ! z"
    by (auto simp: linked_def intro: near_joined)
  with step.IH show ?case by simp
qed

lemma components_connected:
  assumes "a < length ss" "b < length ss"
  shows "same_cluster (components fp T W ss) a b \<longleftrightarrow> (a, b) \<in> (linked fp T W ss)\<^sup>*"
proof
  assume "same_cluster (components fp T W ss) a b"
  then have "components fp T W ss ! a = components fp T W ss ! b"
    by (simp add: same_cluster_def)
  with assms show "(a, b) \<in> (linked fp T W ss)\<^sup>*"
    by (rule components_sound)
next
  assume "(a, b) \<in> (linked fp T W ss)\<^sup>*"
  then have "components fp T W ss ! a = components fp T W ss ! b"
    by (rule components_complete)
  then show "same_cluster (components fp T W ss) a b"
    by (simp add: same_cluster_def)
qed

text \<open>
  Claim C4. The clusters are the connected components of the candidate-pair graph:
  two stories of the batch are in one cluster exactly when a chain of candidate pairs
  leads from one to the other. In particular, when \<open>A\<close> is within threshold and
  window of \<open>B\<close>, and \<open>B\<close> of \<open>C\<close>, the three are in one cluster, whatever the
  distance of \<open>A\<close> and \<open>C\<close>.
\<close>

theorem clustering_transitive:
  assumes "i < length ss" "j < length ss" "k < length ss"
  shows "(same_cluster (components fp T W ss) i j \<longleftrightarrow> (i, j) \<in> (linked fp T W ss)\<^sup>*)
    \<and> (near fp T W (ss ! i) (ss ! j) \<and> near fp T W (ss ! j) (ss ! k) \<longrightarrow>
          same_cluster (components fp T W ss) i j
          \<and> same_cluster (components fp T W ss) j k
          \<and> same_cluster (components fp T W ss) i k)"
proof -
  have "same_cluster (components fp T W ss) i j
        \<and> same_cluster (components fp T W ss) j k
        \<and> same_cluster (components fp T W ss) i k"
    if "near fp T W (ss ! i) (ss ! j)" "near fp T W (ss ! j) (ss ! k)"
  proof -
    have "components fp T W ss ! i = components fp T W ss ! j"
      using assms(1,2) that(1) by (rule near_joined)
    moreover have "components fp T W ss ! j = components fp T W ss ! k"
      using assms(2,3) that(2) by (rule near_joined)
    ultimately show ?thesis by (simp add: same_cluster_def)
  qed
  with components_connected [OF assms(1,2)] show ?thesis by blast
qed

text \<open>
  In the concrete batch the texts of \<open>a\<close> and \<open>c\<close> are at distance 6, above the
  threshold 3, and \<open>a\<close>, \<open>b\<close> and \<open>c\<close> are in one cluster.
\<close>

theorem clustering_transitive_witness:
  "near fp_len 3 1 (batch ! 0) (batch ! 1) \<and> near fp_len 3 1 (batch ! 1) (batch ! 2)
   \<and> distance (fp_len (rec_title (batch ! 0) @ rec_description (batch ! 0)))
               (fp_len (rec_title (batch ! 2) @ rec_description (batch ! 2))) = 6
   \<and> \<not> near fp_len 3 1 (batch ! 0) (batch ! 2)
   \<and> same_cluster (components fp_len 3 1 batch) 0 1
   \<and> same_cluster (components fp_len 3 1 batch) 1 2
   \<and> same_cluster (components fp_len 3 1 batch) 0 2
   \<and> (0, 2) \<in> (linked fp_len 3 1 batch)\<^sup>*"
proof -
  have len: "0 < length batch" "1 < length batch" "2 < length batch"
    by (simp_all add: batch_def)
  have n01: "near fp_len 3 1 (batch ! 0) (batch ! 1)" by code_simp
  have n12: "near fp_len 3 1 (batch ! 1) (batch ! 2)" by code_simp
  have d02: "distance (fp_len (rec_title (batch ! 0) @ rec_description (batch ! 0)))
               (fp_len (rec_title (batch ! 2) @ rec_description (batch ! 2))) = 6"
    by code_simp
  then have n02: "\<not> near fp_len 3 1 (batch ! 0) (batch ! 2)"
    by (simp add: near_def)
  from clustering_transitive [OF len(1) len(2) len(3), of fp_len 3 1] n01 n12
  have s: "same_cluster (components fp_len 3 1 batch) 0 1
      \<and> same_cluster (components fp_len 3 1 batch) 1 2
      \<and> same_cluster (components fp_len 3 1 batch) 0 2"
    by blast
  with clustering_transitive [OF len(1) len(3) len(2), of fp_len 3 1]
  have "(0, 2) \<in> (linked fp_len 3 1 batch)\<^sup>*" by blast
  with n01 n12 d02 n02 s show ?thesis by blast
qed

section \<open>Properties of the canonical selection\<close>

lemma members_iff: "k \<in> set (members l i) \<longleftrightarrow> k < length l \<and> l ! k = l ! i"
  by (auto simp: members_def)

lemma members_same: "l ! k = l ! i \<Longrightarrow> members l k = members l i"
  by (simp add: members_def)

lemma pick_canonical_mem: "pick_canonical ss best ks \<in> insert best (set ks)"
proof (induction ks arbitrary: best)
  case Nil
  then show ?case by simp
next
  case (Cons k ks)
  have "pick_canonical ss (if outranks (ss ! k) (ss ! best) then k else best) ks
          \<in> insert (if outranks (ss ! k) (ss ! best) then k else best) (set ks)"
    by (rule Cons.IH)
  then show ?case by auto
qed

lemma canonical_of_mem:
  assumes "i < length l"
  shows "canonical_of ss l i \<in> set (members l i)"
proof (cases "members l i")
  case Nil
  with assms members_iff [of i l i] show ?thesis by simp
next
  case (Cons k ks)
  then have "canonical_of ss l i = pick_canonical ss k ks"
    by (simp add: canonical_of_def)
  with pick_canonical_mem [of ss k ks] Cons show ?thesis by simp
qed

lemma canonical_of_same:
  assumes "k < length l" "l ! k = l ! i"
  shows "canonical_of ss l k = canonical_of ss l i"
proof -
  have eq: "members l k = members l i"
    using assms(2) by (rule members_same)
  from assms have "k \<in> set (members l i)"
    by (simp add: members_iff)
  then obtain m ms where "members l i = m # ms"
    by (cases "members l i") auto
  with eq show ?thesis
    by (simp add: canonical_of_def)
qed

lemma nth_cluster_stories:
  "k < length ss \<Longrightarrow> cluster_stories fp T W ss ! k = link ss (components fp T W ss) k"
  by (simp add: cluster_stories_def Let_def)

lemma link_fields:
  "rec_is_canonical (link ss l k) \<longleftrightarrow> canonical_of ss l k = k"
  "rec_similar_stories (link ss l k)
     = map (\<lambda>m. rec_id (ss ! m)) (filter (\<lambda>m. m \<noteq> k) (members l k))"
  "rec_id (link ss l k) = rec_id (ss ! k)"
  by (simp_all add: link_def)

text \<open>
  Claim C1. In the cluster of every story of the batch, exactly one member is
  canonical after Duplicate Clustering (the member \<open>c\<close> that the selection picks);
  the similar stories of every non-canonical member contain the id of the canonical
  member; the similar stories of the canonical member are the ids of all the other
  members; and a story that is alone in its cluster is canonical with no similar
  stories.
\<close>

theorem canonical_uniqueness:
  assumes i: "i < length ss"
  shows "let l = components fp T W ss;
      out = cluster_stories fp T W ss;
      c = canonical_of ss l i
    in length out = length ss
    \<and> c \<in> set (members l i)
    \<and> (\<forall>k \<in> set (members l i). rec_is_canonical (out ! k) \<longleftrightarrow> k = c)
    \<and> (\<forall>k \<in> set (members l i).
          \<not> rec_is_canonical (out ! k) \<longrightarrow> rec_id (out ! c) \<in> set (rec_similar_stories (out ! k)))
    \<and> rec_similar_stories (out ! c)
          = map (\<lambda>k. rec_id (out ! k)) (filter (\<lambda>k. k \<noteq> c) (members l i))
    \<and> (members l i = [i] \<longrightarrow> rec_is_canonical (out ! i) \<and> rec_similar_stories (out ! i) = [])"
proof -
  define l where "l = components fp T W ss"
  define out where "out = cluster_stories fp T W ss"
  define c where "c = canonical_of ss l i"
  have len: "length l = length ss"
    by (simp add: l_def length_components)
  have c_mem: "c \<in> set (members l i)"
    unfolding c_def using i canonical_of_mem [of i l ss] len by simp
  have mem: "k < length ss \<and> l ! k = l ! i" if "k \<in> set (members l i)" for k
    using that len by (simp add: members_iff)
  have out: "out ! k = link ss l k" if "k \<in> set (members l i)" for k
    using mem [OF that] by (simp add: out_def l_def nth_cluster_stories)
  have canon: "canonical_of ss l k = c" if "k \<in> set (members l i)" for k
    unfolding c_def using mem [OF that] len by (intro canonical_of_same) simp_all
  have same: "members l k = members l i" if "k \<in> set (members l i)" for k
    using mem [OF that] by (intro members_same) simp
  have one: "rec_is_canonical (out ! k) \<longleftrightarrow> k = c" if "k \<in> set (members l i)" for k
    using that by (auto simp: out link_fields canon)
  have ids: "rec_id (out ! k) = rec_id (ss ! k)" if "k \<in> set (members l i)" for k
    using that by (simp add: out link_fields)
  have sim: "rec_similar_stories (out ! k)
               = map (\<lambda>m. rec_id (out ! m)) (filter (\<lambda>m. m \<noteq> k) (members l i))"
    if "k \<in> set (members l i)" for k
  proof -
    have "rec_similar_stories (out ! k)
            = map (\<lambda>m. rec_id (ss ! m)) (filter (\<lambda>m. m \<noteq> k) (members l i))"
      using that by (simp add: out link_fields same)
    also have "\<dots> = map (\<lambda>m. rec_id (out ! m)) (filter (\<lambda>m. m \<noteq> k) (members l i))"
      by (rule map_cong) (simp_all add: ids)
    finally show ?thesis .
  qed
  have points: "rec_id (out ! c) \<in> set (rec_similar_stories (out ! k))"
    if "k \<in> set (members l i)" "\<not> rec_is_canonical (out ! k)" for k
  proof -
    from that one have "c \<noteq> k" by blast
    with c_mem have "c \<in> set (filter (\<lambda>m. m \<noteq> k) (members l i))" by simp
    then show ?thesis unfolding sim [OF that(1)] by simp
  qed
  have single: "rec_is_canonical (out ! i) \<and> rec_similar_stories (out ! i) = []"
    if "members l i = [i]"
  proof -
    have i_mem: "i \<in> set (members l i)" using that by simp
    from c_mem that have "c = i" by simp
    with one [OF i_mem] sim [OF i_mem] that show ?thesis by simp
  qed
  have "length out = length ss"
    by (simp add: out_def cluster_stories_def Let_def)
  with c_mem one points sim [OF c_mem] single
  have "length out = length ss
    \<and> c \<in> set (members l i)
    \<and> (\<forall>k \<in> set (members l i). rec_is_canonical (out ! k) \<longleftrightarrow> k = c)
    \<and> (\<forall>k \<in> set (members l i).
          \<not> rec_is_canonical (out ! k) \<longrightarrow> rec_id (out ! c) \<in> set (rec_similar_stories (out ! k)))
    \<and> rec_similar_stories (out ! c)
          = map (\<lambda>k. rec_id (out ! k)) (filter (\<lambda>k. k \<noteq> c) (members l i))
    \<and> (members l i = [i] \<longrightarrow> rec_is_canonical (out ! i) \<and> rec_similar_stories (out ! i) = [])"
    by blast
  then show ?thesis
    unfolding Let_def l_def [symmetric] out_def [symmetric] c_def [symmetric] .
qed

theorem canonical_uniqueness_witness:
  "members (components fp_len 3 1 batch) 0 = [0, 1, 2]
   \<and> canonical_of batch (components fp_len 3 1 batch) 0 = 1
   \<and> map rec_is_canonical (cluster_stories fp_len 3 1 batch) = [False, True, False, True]
   \<and> map rec_similar_stories (cluster_stories fp_len 3 1 batch)
        = [[''b'', ''c''], [''a'', ''c''], [''a'', ''b''], []]
   \<and> members (components fp_len 3 1 batch) 3 = [3]
   \<and> \<not> rec_is_canonical (cluster_stories fp_len 3 1 batch ! 0)
   \<and> rec_is_canonical (cluster_stories fp_len 3 1 batch ! 1)
   \<and> \<not> rec_is_canonical (cluster_stories fp_len 3 1 batch ! 2)
   \<and> rec_id (cluster_stories fp_len 3 1 batch ! 1)
         \<in> set (rec_similar_stories (cluster_stories fp_len 3 1 batch ! 0))
   \<and> rec_is_canonical (cluster_stories fp_len 3 1 batch ! 3)
   \<and> rec_similar_stories (cluster_stories fp_len 3 1 batch ! 3) = []"
proof -
  have len: "0 < length batch" "3 < length batch"
    by (simp_all add: batch_def)
  have m0: "members (components fp_len 3 1 batch) 0 = [0, 1, 2]" by code_simp
  have m3: "members (components fp_len 3 1 batch) 3 = [3]" by code_simp
  have c0: "canonical_of batch (components fp_len 3 1 batch) 0 = 1" by code_simp
  have can: "map rec_is_canonical (cluster_stories fp_len 3 1 batch) = [False, True, False, True]"
    by code_simp
  have sim: "map rec_similar_stories (cluster_stories fp_len 3 1 batch)
        = [[''b'', ''c''], [''a'', ''c''], [''a'', ''b''], []]"
    by code_simp
  from canonical_uniqueness [OF len(1), of fp_len 3 1]
  have all: "\<forall>k \<in> set [0, 1, 2::nat].
         rec_is_canonical (cluster_stories fp_len 3 1 batch ! k) \<longleftrightarrow> k = 1"
    and pts: "\<forall>k \<in> set [0, 1, 2::nat].
         \<not> rec_is_canonical (cluster_stories fp_len 3 1 batch ! k) \<longrightarrow>
         rec_id (cluster_stories fp_len 3 1 batch ! 1)
           \<in> set (rec_similar_stories (cluster_stories fp_len 3 1 batch ! k))"
    unfolding Let_def c0 m0 by blast+
  from all have a: "\<not> rec_is_canonical (cluster_stories fp_len 3 1 batch ! 0)
      \<and> rec_is_canonical (cluster_stories fp_len 3 1 batch ! 1)
      \<and> \<not> rec_is_canonical (cluster_stories fp_len 3 1 batch ! 2)"
    by simp
  with pts have p: "rec_id (cluster_stories fp_len 3 1 batch ! 1)
         \<in> set (rec_similar_stories (cluster_stories fp_len 3 1 batch ! 0))"
    by simp
  from canonical_uniqueness [OF len(2), of fp_len 3 1] m3
  have b: "rec_is_canonical (cluster_stories fp_len 3 1 batch ! 3)
      \<and> rec_similar_stories (cluster_stories fp_len 3 1 batch ! 3) = []"
    unfolding Let_def by blast
  from m0 m3 c0 can sim a p b show ?thesis by blast
qed

end
